theory Spec2Isabelle
  imports Main
begin

section \<open>The LRU HTTP cache of \<open>lru.go\<close>\<close>

text \<open>
  A shallow embedding of \<open>src/lru.go\<close>: the cache entry \<open>CacheObj\<close>, the cache
  \<open>lruCache\<close> (an eviction store and a stale overlay) and its operations
  \<open>NewLRUCache\<close>, \<open>Header\<close>, \<open>Store\<close>, \<open>Retrieve\<close>, \<open>updateHeader\<close>,
  \<open>Invalidate\<close> and \<open>Freshen\<close>. Every operation takes the cache and returns the
  cache it leaves behind. Output written with \<open>fmt\<close>, \<open>log\<close> and \<open>debugf\<close> is not
  part of the state and is left out.
\<close>

subsection \<open>Values, errors and outcomes\<close>

text \<open>\<open>time.Time\<close>: an instant on a linear time line.\<close>

type_synonym Time = int

text \<open>
  \<open>http.Header\<close>, a \<open>map[string][]string\<close>, as an association list read with
  \<open>map_of\<close>; a \<open>[]byte\<close> is a \<open>string\<close> (a list of 8-bit characters).
\<close>

type_synonym http_Header = "(string \<times> string list) list"

text \<open>
  The errors the operations return. \<open>ErrUnknownType\<close> stands for the \<open>fmt.Errorf\<close>
  values of the failed type assertions, \<open>EOF\<close> for \<open>io.EOF\<close>, \<open>ErrIO\<close> for any
  other error of a body reader, \<open>ErrInvalidSize\<close> for the error of the eviction
  store's constructor.
\<close>

datatype error =
    ErrNotFoundInCache
  | ErrUnknownType
  | EOF
  | ErrIO string
  | ErrInvalidSize

text \<open>A Go call either panics or returns; an \<open>error\<close> result is \<open>None\<close> for \<open>nil\<close>.\<close>

datatype 'a outcome = Panics | Returns 'a

subsection \<open>Library functions used by the cache\<close>

text \<open>
  \<open>http.Header.Get\<close>: the first value stored under the key, \<open>""\<close> when there is
  none. The keys looked up, \<open>"Content-Length"\<close> and \<open>"Date"\<close>, are in canonical
  form already.
\<close>

definition http_Get :: "http_Header \<Rightarrow> string \<Rightarrow> string" where
  "http_Get h k = (case map_of h k of Some (v # _) \<Rightarrow> v | _ \<Rightarrow> [])"

text \<open>
  \<open>strconv.ParseInt(s, 10, 64)\<close>: an optional sign, then one or more decimal digits;
  a syntax error and a value outside the 64-bit signed range are both errors
  (\<open>None\<close>). \<open>ParseUint\<close> is its unsigned part; the value it reads is not
  negative.
\<close>

definition digit :: "char \<Rightarrow> int option" where
  "digit c =
     (let n = (of_char c :: int) in if 48 \<le> n \<and> n \<le> 57 then Some (n - 48) else None)"

fun digits :: "int \<Rightarrow> string \<Rightarrow> int option" where
  "digits acc [] = Some acc"
| "digits acc (c # cs) =
     (case digit c of None \<Rightarrow> None | Some d \<Rightarrow> digits (10 * acc + d) cs)"

definition ParseUint :: "string \<Rightarrow> int option" where
  "ParseUint s = (if s = [] then None else digits 0 s)"

definition ParseInt :: "string \<Rightarrow> int option" where
  "ParseInt s =
     (case s of
        [] \<Rightarrow> None
      | c # r \<Rightarrow>
          (let neg = (c = CHR ''-'');
               s' = (if c = CHR ''+'' \<or> c = CHR ''-'' then r else s)
           in case ParseUint s' of
                None \<Rightarrow> None
              | Some un \<Rightarrow>
                  if \<not> neg \<and> un \<ge> 2 ^ 63 then None
                  else if neg \<and> un > 2 ^ 63 then None
                  else Some (if neg then - un else un)))"

subsection \<open>Resources\<close>

text \<open>
  Modelled from the spec: the body stream of a resource, an \<open>io.Reader\<close> declared
  outside \<open>src/\<close>. Its model is the list of the runs of bytes that successive \<open>Read\<close>
  calls find available, and the way the stream ends: \<open>None\<close> for a clean end
  (\<open>io.EOF\<close>), \<open>Some m\<close> for an I/O error.
\<close>

datatype ReadSeekCloser = Stream (chunks: "string list") (ending: "string option")

text \<open>
  Modelled from the spec: the type \<open>Resource\<close> and its methods are declared in a
  file of the repository that is not under \<open>src/\<close>. The spec (section 6) describes
  a resource as a body stream, headers, a status, a date accessor and a stale flag;
  the date is read from the headers (\<open>DateAfter\<close> below).
\<close>

record Resource =
  header :: http_Header
  statusCode :: int
  reader :: ReadSeekCloser
  staleFlag :: bool

text \<open>
  Modelled from the spec: \<open>Read\<close> with a buffer of \<open>n\<close> bytes. It returns the bytes it
  put in the buffer (at most \<open>n\<close>; their number is Go's first result), the error, and
  the stream that is left. A read never waits for more than is available, so it may
  be short without an error, as \<open>io.Reader\<close> allows.
\<close>

fun Read :: "ReadSeekCloser \<Rightarrow> nat \<Rightarrow> (string \<times> error option) \<times> ReadSeekCloser" where
  "Read (Stream [] e) n =
     (([], Some (case e of None \<Rightarrow> EOF | Some m \<Rightarrow> ErrIO m)), Stream [] e)"
| "Read (Stream (c # cs) e) n =
     (if length c \<le> n then ((c, None), Stream cs e)
      else ((take n c, None), Stream (drop n c # cs) e))"

text \<open>
  Modelled from the spec: \<open>ioutil.ReadAll\<close> on the body stream: everything up to the
  end of the stream; a clean end is not an error.
\<close>

definition ReadAll :: "ReadSeekCloser \<Rightarrow> string \<times> error option" where
  "ReadAll r = (concat (chunks r), map_option ErrIO (ending r))"

text \<open>The whole body of a resource: all the bytes that its stream holds.\<close>

definition bodyBytes :: "Resource \<Rightarrow> string" where
  "bodyBytes res = concat (chunks (reader res))"

text \<open>
  Modelled from the spec: \<open>NewResourceBytes\<close> builds a resource over a byte slice
  (a \<open>bytes.Reader\<close>, which reports \<open>io.EOF\<close> at once when the slice is empty), not
  stale.
\<close>

definition NewResourceBytes :: "int \<Rightarrow> string \<Rightarrow> http_Header \<Rightarrow> Resource" where
  "NewResourceBytes c b h =
     \<lparr>header = h, statusCode = c,
      reader = Stream (if b = [] then [] else [b]) None, staleFlag = False\<rparr>"

text \<open>Modelled from the spec: \<open>Status\<close> is the status code of the resource.\<close>

definition Status :: "Resource \<Rightarrow> int" where
  "Status r = statusCode r"

text \<open>Modelled from the spec: \<open>MarkStale\<close> sets the stale flag.\<close>

definition MarkStale :: "Resource \<Rightarrow> Resource" where
  "MarkStale r = r\<lparr>staleFlag := True\<rparr>"

text \<open>
  Modelled from the spec: \<open>DateAfter\<close>, the date accessor of section 4.3: whether the
  resource's effective date is strictly after the given instant. The date is the
  \<open>Date\<close> header, read by \<open>http.ParseTime\<close>, which the model takes as the parameter
  \<open>pt\<close>; a resource with no readable date is not after anything.
\<close>

definition DateAfter :: "(string \<Rightarrow> Time option) \<Rightarrow> Resource \<Rightarrow> Time \<Rightarrow> bool" where
  "DateAfter pt r d =
     (let s = http_Get (header r) ''Date''
      in if s = [] then False
         else (case pt s of None \<Rightarrow> False | Some t \<Rightarrow> d < t))"

text \<open>
  Modelled from the spec: \<open>headersEqual\<close> is declared outside \<open>src/\<close>. Section 4.7:
  the header sets are compared "by semantic equality of header name to values, not by
  entry order": every name of either header has the same values in both.
\<close>

definition headersEqual :: "http_Header \<Rightarrow> http_Header \<Rightarrow> bool" where
  "headersEqual h1 h2 =
     list_all (\<lambda>k. map_of h1 k = map_of h2 k) (map fst h1 @ map fst h2)"

subsection \<open>Cache entries\<close>

text \<open>\<open>CacheObj\<close> (lines 14-18) and its \<open>Size\<close> (lines 20-23), the length of the body.\<close>

record CacheObj =
  body :: string
  headers :: http_Header
  code :: int

definition Size :: "CacheObj \<Rightarrow> nat" where
  "Size c = length (body c)"

text \<open>
  What the eviction store holds is an \<open>interface{}\<close>: a \<open>CacheObj\<close>, or a value of
  another type, on which the type assertions of lines 48, 98 and 120 fail.
\<close>

datatype ival = IsCacheObj CacheObj | Foreign

subsection \<open>The eviction store\<close>

text \<open>
  Modelled from the spec: the eviction store is the external package
  \<open>golang-lru\<close>, which is not under \<open>src/\<close>. Section 2: "a key to value associative
  structure that tracks a running total of a caller-supplied weight per entry and
  evicts the least-recently-used entries when a configured capacity is exceeded",
  with get and insert-with-weight. The model keeps the entries (key, value, weight)
  from the least to the most recently used.
\<close>

type_synonym entry = "string \<times> ival \<times> nat"

record lru =
  capacity :: nat
  items :: "entry list"

text \<open>Modelled from the spec: the running total of the weights.\<close>

definition total_weight :: "entry list \<Rightarrow> nat" where
  "total_weight es = sum_list (map (\<lambda>e. snd (snd e)) es)"

text \<open>
  Modelled from the spec: eviction drops least recently used entries for as long as
  the total weight is above the capacity.
\<close>

fun evict :: "nat \<Rightarrow> entry list \<Rightarrow> entry list" where
  "evict cap [] = []"
| "evict cap (e # es) = (if cap < total_weight (e # es) then evict cap es else e # es)"

text \<open>Modelled from the spec: the entries of the other keys.\<close>

definition without :: "string \<Rightarrow> entry list \<Rightarrow> entry list" where
  "without k es = filter (\<lambda>e. fst e \<noteq> k) es"

text \<open>
  Modelled from the spec: the constructor gives an empty store of the capacity, and
  fails on an invalid capacity (section 4.1), which is 0 here.
\<close>

definition NewLargeWithEvict :: "nat \<Rightarrow> error + lru" where
  "NewLargeWithEvict sz =
     (if sz = 0 then Inl ErrInvalidSize else Inr \<lparr>capacity = sz, items = []\<rparr>)"

text \<open>
  Modelled from the spec: \<open>Get\<close> returns the value of the key, if it has one, and
  makes its entry the most recently used.
\<close>

definition lru_Get :: "lru \<Rightarrow> string \<Rightarrow> ival option \<times> lru" where
  "lru_Get l k =
     (case find (\<lambda>e. fst e = k) (items l) of
        None \<Rightarrow> (None, l)
      | Some e \<Rightarrow> (Some (fst (snd e)), l\<lparr>items := without k (items l) @ [e]\<rparr>))"

text \<open>
  Modelled from the spec: \<open>AddSize\<close> replaces the entry of the key by the new one, as
  the most recently used, and then evicts.
\<close>

definition lru_AddSize :: "lru \<Rightarrow> string \<Rightarrow> ival \<Rightarrow> nat \<Rightarrow> lru" where
  "lru_AddSize l k v w =
     l\<lparr>items := evict (capacity l) (without k (items l) @ [(k, v, w)])\<rparr>"

subsection \<open>The cache\<close>

text \<open>
  \<open>lruCache\<close>: the eviction store and the stale overlay, a \<open>map[string]time.Time\<close>.
  A Go map may be \<open>nil\<close> (\<open>None\<close> here): reading a nil map finds nothing, deleting
  from it does nothing, assigning to it panics.
\<close>

record lruCache =
  cache :: lru
  stale :: "(string \<rightharpoonup> Time) option"

definition stale_lookup :: "lruCache \<Rightarrow> string \<Rightarrow> Time option" where
  "stale_lookup c k = (case stale c of None \<Rightarrow> None | Some m \<Rightarrow> m k)"

definition stale_delete :: "lruCache \<Rightarrow> string \<Rightarrow> lruCache" where
  "stale_delete c k =
     (case stale c of None \<Rightarrow> c | Some m \<Rightarrow> c\<lparr>stale := Some (m(k := None))\<rparr>)"

text \<open>\<open>NewLRUCache\<close> (lines 32-38) sets the store and leaves the overlay \<open>nil\<close>.\<close>

definition NewLRUCache :: "nat \<Rightarrow> error + lruCache" where
  "NewLRUCache sizeBytes =
     (case NewLargeWithEvict sizeBytes of
        Inl err \<Rightarrow> Inl err
      | Inr c \<Rightarrow> Inr \<lparr>cache = c, stale = None\<rparr>)"

text \<open>
  The struct \<open>Header\<close> that the method \<open>Header\<close> returns, declared outside \<open>src/\<close>,
  with the two fields that lines 45-52 set.
\<close>

record Header_t =
  Hdr :: http_Header
  StatusCode :: int

text \<open>\<open>Header\<close> (lines 41-53).\<close>

definition Header :: "lruCache \<Rightarrow> string \<Rightarrow> (error + Header_t) \<times> lruCache" where
  "Header c key =
     (case lru_Get (cache c) key of
        (None, l) \<Rightarrow> (Inl ErrNotFoundInCache, c\<lparr>cache := l\<rparr>)
      | (Some Foreign, l) \<Rightarrow> (Inl ErrUnknownType, c\<lparr>cache := l\<rparr>)
      | (Some (IsCacheObj val), l) \<Rightarrow>
          (Inr \<lparr>Hdr = headers val, StatusCode = code val\<rparr>, c\<lparr>cache := l\<rparr>))"

text \<open>
  \<open>Store\<close> (lines 56-86). \<open>Store_body\<close> is the reading of the body (lines 58-71):
  \<open>Inr\<close> the bytes, or \<open>Inl\<close> the value of the \<open>err\<close> that an early \<open>return err\<close>
  returns. In the branch of a parseable Content-Length, \<open>make\<close> panics on a negative
  length; after a read with no error, \<open>err\<close> is \<open>nil\<close>, and that is what line 66
  returns when the read was short. (An allocation too large for the machine is not
  modelled.) The resource is not used after its body is read, so the model drops the
  stream that the read leaves.
\<close>

definition Store_body :: "Resource \<Rightarrow> (error option + string) outcome" where
  "Store_body res =
     (case ParseInt (http_Get (header res) ''Content-Length'') of
        Some len \<Rightarrow>
          if len < 0 then Panics
          else (case fst (Read (reader res) (nat len)) of
                  (bs, Some err) \<Rightarrow> Returns (Inl (Some err))
                | (bs, None) \<Rightarrow>
                    if int (length bs) \<noteq> len then Returns (Inl None)
                    else Returns (Inr bs))
      | None \<Rightarrow>
          (case ReadAll (reader res) of
             (bs, Some err) \<Rightarrow> Returns (Inl (Some err))
           | (bs, None) \<Rightarrow> Returns (Inr bs)))"

text \<open>The loop over the keys (lines 79-83).\<close>

fun Store_keys :: "lruCache \<Rightarrow> CacheObj \<Rightarrow> string list \<Rightarrow> lruCache" where
  "Store_keys c val [] = c"
| "Store_keys c val (key # keys) =
     (let c1 = stale_delete c key
      in Store_keys (c1\<lparr>cache := lru_AddSize (cache c1) key (IsCacheObj val) (Size val)\<rparr>)
           val keys)"

definition Store :: "lruCache \<Rightarrow> Resource \<Rightarrow> string list \<Rightarrow> (error option \<times> lruCache) outcome" where
  "Store c res keys =
     (case Store_body res of
        Panics \<Rightarrow> Panics
      | Returns (Inl err) \<Rightarrow> Returns (err, c)
      | Returns (Inr bytes) \<Rightarrow>
          Returns (None,
            Store_keys c \<lparr>body = bytes, headers = header res, code = statusCode res\<rparr> keys))"

text \<open>\<open>Retrieve\<close> (lines 89-112).\<close>

definition Retrieve ::
  "(string \<Rightarrow> Time option) \<Rightarrow> lruCache \<Rightarrow> string \<Rightarrow> (error + Resource) \<times> lruCache" where
  "Retrieve pt c key =
     (case lru_Get (cache c) key of
        (None, l) \<Rightarrow> (Inl ErrNotFoundInCache, c\<lparr>cache := l\<rparr>)
      | (Some Foreign, l) \<Rightarrow> (Inl ErrUnknownType, c\<lparr>cache := l\<rparr>)
      | (Some (IsCacheObj val), l) \<Rightarrow>
          (let res = NewResourceBytes (code val) (body val) (headers val)
           in (Inr (case stale_lookup c key of
                      Some staleTime \<Rightarrow>
                        if \<not> DateAfter pt res staleTime then MarkStale res else res
                    | None \<Rightarrow> res),
               c\<lparr>cache := l\<rparr>)))"

text \<open>\<open>updateHeader\<close> (lines 115-128).\<close>

definition updateHeader ::
  "lruCache \<Rightarrow> string \<Rightarrow> http_Header \<Rightarrow> int \<Rightarrow> error option \<times> lruCache" where
  "updateHeader c key hs cd =
     (case lru_Get (cache c) key of
        (None, l) \<Rightarrow> (Some ErrNotFoundInCache, c\<lparr>cache := l\<rparr>)
      | (Some Foreign, l) \<Rightarrow> (Some ErrUnknownType, c\<lparr>cache := l\<rparr>)
      | (Some (IsCacheObj val), l) \<Rightarrow>
          (let val' = val\<lparr>headers := hs, code := cd\<rparr>
           in (None, c\<lparr>cache := lru_AddSize l key (IsCacheObj val') (Size val')\<rparr>)))"

text \<open>
  \<open>Invalidate\<close> (lines 130-135). \<open>Clock\<close> is a variable of the package, declared
  outside \<open>src/\<close>: \<open>clk i\<close> is what its \<open>i\<close>-th call returns, and the operations that
  read the clock take the number of calls made so far and return the new one.
  Assigning to the overlay panics when the overlay is \<open>nil\<close>.
\<close>

fun Invalidate ::
  "(nat \<Rightarrow> Time) \<Rightarrow> nat \<Rightarrow> lruCache \<Rightarrow> string list \<Rightarrow> (nat \<times> lruCache) outcome" where
  "Invalidate clk n c [] = Returns (n, c)"
| "Invalidate clk n c (key # keys) =
     (case stale c of
        None \<Rightarrow> Panics
      | Some m \<Rightarrow> Invalidate clk (Suc n) (c\<lparr>stale := Some (m(key \<mapsto> clk n))\<rparr>) keys)"

text \<open>\<open>Freshen\<close> (lines 137-153).\<close>

fun Freshen ::
  "(nat \<Rightarrow> Time) \<Rightarrow> nat \<Rightarrow> lruCache \<Rightarrow> Resource \<Rightarrow> string list
     \<Rightarrow> (error option \<times> nat \<times> lruCache) outcome" where
  "Freshen clk n c res [] = Returns (None, n, c)"
| "Freshen clk n c res (key # keys) =
     (case Header c key of
        (Inl err, c1) \<Rightarrow> Freshen clk n c1 res keys
      | (Inr h, c1) \<Rightarrow>
          if StatusCode h = Status res \<and> headersEqual (Hdr h) (header res)
          then (case updateHeader c1 key (header res) (StatusCode h) of
                  (Some err, c2) \<Rightarrow> Returns (Some err, n, c2)
                | (None, c2) \<Rightarrow> Freshen clk n c2 res keys)
          else (case Invalidate clk n c1 [key] of
                  Panics \<Rightarrow> Panics
                | Returns (n', c2) \<Rightarrow> Freshen clk n' c2 res keys))"

subsection \<open>Well-formed caches\<close>

text \<open>
  The caches that the operations build from \<open>NewLRUCache\<close> hold one entry per key,
  within the capacity in total, each a \<open>CacheObj\<close> weighted by its \<open>Size\<close>.
\<close>

definition entry_ok :: "entry \<Rightarrow> bool" where
  "entry_ok e =
     (case fst (snd e) of IsCacheObj v \<Rightarrow> snd (snd e) = Size v | Foreign \<Rightarrow> False)"

definition lru_ok :: "lru \<Rightarrow> bool" where
  "lru_ok l =
     (distinct (map fst (items l)) \<and> total_weight (items l) \<le> capacity l \<and>
      list_all entry_ok (items l))"

definition cache_ok :: "lruCache \<Rightarrow> bool" where
  "cache_ok c = lru_ok (cache c)"

subsection \<open>Reachable caches\<close>

text \<open>
  The caches that a program can hold: \<open>lruCache\<close> is private to the package, so a
  cache comes from \<open>NewLRUCache\<close> and changes only through the operations, each of
  which leaves a cache behind when it returns.
\<close>

inductive reachable :: "lruCache \<Rightarrow> bool" where
  new: "NewLRUCache sz = Inr c \<Longrightarrow> reachable c"
| header: "reachable c \<Longrightarrow> reachable (snd (Header c key))"
| store: "reachable c \<Longrightarrow> Store c res keys = Returns (e, c') \<Longrightarrow> reachable c'"
| retrieve: "reachable c \<Longrightarrow> reachable (snd (Retrieve pt c key))"
| update: "reachable c \<Longrightarrow> reachable (snd (updateHeader c key hs cd))"
| invalidate: "reachable c \<Longrightarrow> Invalidate clk n c keys = Returns (n', c') \<Longrightarrow> reachable c'"
| freshen: "reachable c \<Longrightarrow> Freshen clk n c res keys = Returns (e, n', c') \<Longrightarrow> reachable c'"

subsection \<open>Example resources and caches\<close>

text \<open>The cache that \<open>NewLRUCache 100\<close> returns.\<close>

definition fresh_cache :: lruCache where
  "fresh_cache = \<lparr>cache = \<lparr>capacity = 100, items = []\<rparr>, stale = None\<rparr>"

text \<open>A response that declares five bytes and delivers three, then ends.\<close>

definition short_res :: Resource where
  "short_res =
     \<lparr>header = [(''Content-Length'', [''5''])], statusCode = 200,
      reader = Stream [''hel''] None, staleFlag = False\<rparr>"

text \<open>A response whose connection breaks before any byte of the body arrives.\<close>

definition broken_res :: Resource where
  "broken_res =
     \<lparr>header = [(''ETag'', [''a''])], statusCode = 200,
      reader = Stream [] (Some ''connection reset''), staleFlag = False\<rparr>"

text \<open>The response of the spec's round trip: status 200, one ETag, the body "hello".\<close>

definition hello_res :: Resource where
  "hello_res =
     \<lparr>header = [(''ETag'', [''a''])], statusCode = 200,
      reader = Stream [''hello''] None, staleFlag = False\<rparr>"

definition hello_obj :: CacheObj where
  "hello_obj = \<lparr>body = ''hello'', headers = [(''ETag'', [''a''])], code = 200\<rparr>"

text \<open>
  A cache with an allocated overlay that holds \<open>hello_obj\<close> under \<open>/x\<close>, invalidated
  at the instant 7.
\<close>

definition stale_cache :: lruCache where
  "stale_cache =
     \<lparr>cache = \<lparr>capacity = 100, items = [(''/x'', IsCacheObj hello_obj, 5)]\<rparr>,
      stale = Some [''/x'' \<mapsto> 7]\<rparr>"

text \<open>
  A reading of two HTTP dates, as \<open>http.ParseTime\<close> reads them, in seconds since
  the epoch.
\<close>

definition epoch_pt :: "string \<Rightarrow> Time option" where
  "epoch_pt s =
     (if s = ''Thu, 01 Jan 1970 00:00:05 GMT'' then Some 5
      else if s = ''Thu, 01 Jan 1970 00:00:09 GMT'' then Some 9
      else None)"

text \<open>An entry dated at the instant 5, and a cache that holds it, invalidated at 7.\<close>

definition dated_obj :: CacheObj where
  "dated_obj =
     \<lparr>body = ''hello'',
      headers = [(''Date'', [''Thu, 01 Jan 1970 00:00:05 GMT'']), (''ETag'', [''a''])],
      code = 200\<rparr>"

definition dated_cache :: lruCache where
  "dated_cache =
     \<lparr>cache = \<lparr>capacity = 100, items = [(''/x'', IsCacheObj dated_obj, 5)]\<rparr>,
      stale = Some [''/x'' \<mapsto> 7]\<rparr>"

text \<open>
  A candidate response with the status and the headers of \<open>dated_obj\<close>, the headers
  listed in another order, and the entry and the cache that \<open>Freshen\<close> makes of it.
\<close>

definition reordered_res :: Resource where
  "reordered_res =
     \<lparr>header = [(''ETag'', [''a'']), (''Date'', [''Thu, 01 Jan 1970 00:00:05 GMT''])],
      statusCode = 200, reader = Stream [] None, staleFlag = False\<rparr>"

definition reordered_obj :: CacheObj where
  "reordered_obj =
     \<lparr>body = ''hello'',
      headers = [(''ETag'', [''a'']), (''Date'', [''Thu, 01 Jan 1970 00:00:05 GMT''])],
      code = 200\<rparr>"

definition reordered_cache :: lruCache where
  "reordered_cache =
     \<lparr>cache = \<lparr>capacity = 100, items = [(''/x'', IsCacheObj reordered_obj, 5)]\<rparr>,
      stale = Some [''/x'' \<mapsto> 7]\<rparr>"

text \<open>A candidate response whose ETag differs from the one of \<open>hello_obj\<close>.\<close>

definition changed_res :: Resource where
  "changed_res =
     \<lparr>header = [(''ETag'', [''b''])], statusCode = 200, reader = Stream [] None,
      staleFlag = False\<rparr>"

text \<open>The cache of \<open>NewLRUCache 100\<close> after \<open>hello_res\<close> is stored under \<open>/x\<close>.\<close>

definition hello_cache :: lruCache where
  "hello_cache =
     \<lparr>cache = \<lparr>capacity = 100, items = [(''/x'', IsCacheObj hello_obj, 5)]\<rparr>, stale = None\<rparr>"

text \<open>
  The cache that \<open>NewLRUCache 5\<close> returns, and what it holds after \<open>hello_res\<close> is
  stored under \<open>/a\<close> and \<open>/b\<close>.
\<close>

definition small_cache :: lruCache where
  "small_cache = \<lparr>cache = \<lparr>capacity = 5, items = []\<rparr>, stale = None\<rparr>"

definition small_stored :: lruCache where
  "small_stored =
     \<lparr>cache = \<lparr>capacity = 5, items = [(''/b'', IsCacheObj hello_obj, 5)]\<rparr>, stale = None\<rparr>"

text \<open>What \<open>stale_cache\<close> becomes when \<open>hello_res\<close> is stored under \<open>/x\<close> again.\<close>

definition restored_cache :: lruCache where
  "restored_cache =
     \<lparr>cache = \<lparr>capacity = 100, items = [(''/x'', IsCacheObj hello_obj, 5)]\<rparr>,
      stale = Some ([''/x'' \<mapsto> 7](''/x'' := None))\<rparr>"

section \<open>Properties\<close>

subsection \<open>The eviction store\<close>

lemma total_Nil [simp]: "total_weight [] = 0"
  by (simp add: total_weight_def)

lemma total_Cons [simp]: "total_weight (e # es) = snd (snd e) + total_weight es"
  by (simp add: total_weight_def)

lemma total_append [simp]: "total_weight (xs @ ys) = total_weight xs + total_weight ys"
  by (simp add: total_weight_def)

text \<open>Eviction stops within the capacity, and changes nothing that is within it.\<close>

lemma evict_le: "total_weight (evict cap es) \<le> cap"
  by (induction es) auto

lemma evict_id: "total_weight es \<le> cap \<Longrightarrow> evict cap es = es"
  by (cases es) auto

text \<open>What is left is the most recent part of the list.\<close>

lemma evict_suffix: "\<exists>pre. es = pre @ evict cap es"
proof (induction es)
  case Nil
  show ?case by simp
next
  case (Cons e es)
  then obtain p where "es = p @ evict cap es" by blast
  then have "e # es = (e # p) @ evict cap es" by simp
  then show ?case by (metis append_Nil evict.simps(2))
qed

text \<open>Most recent entries that fit the capacity together all stay.\<close>

lemma evict_keep:
  "total_weight suf \<le> cap \<Longrightarrow>
   \<exists>pre'. evict cap (pre @ suf) = pre' @ suf \<and> set pre' \<subseteq> set pre"
proof (induction pre)
  case Nil
  then show ?case by (simp add: evict_id)
next
  case (Cons e pre)
  then obtain p where p: "evict cap (pre @ suf) = p @ suf" "set p \<subseteq> set pre"
    by blast
  show ?case
  proof (cases "cap < total_weight ((e # pre) @ suf)")
    case True
    with p show ?thesis by auto
  next
    case False
    then have "evict cap ((e # pre) @ suf) = (e # pre) @ suf" by simp
    then show ?thesis by blast
  qed
qed

lemma evict_distinct: "distinct (map fst es) \<Longrightarrow> distinct (map fst (evict cap es))"
proof -
  assume d: "distinct (map fst es)"
  obtain p where "es = p @ evict cap es" using evict_suffix by blast
  then have "map fst es = map fst p @ map fst (evict cap es)" by (metis map_append)
  with d show ?thesis by (metis distinct_append)
qed

lemma evict_list_all: "list_all P es \<Longrightarrow> list_all P (evict cap es)"
proof -
  assume a: "list_all P es"
  obtain p where "es = p @ evict cap es" using evict_suffix by blast
  with a show ?thesis by (metis list_all_append)
qed

lemma find_map_of:
  "find (\<lambda>e. fst e = k) es = (case map_of es k of None \<Rightarrow> None | Some x \<Rightarrow> Some (k, x))"
  by (induction es) auto

lemma map_of_without: "map_of (without k es) k' = (if k' = k then None else map_of es k')"
  by (induction es) (auto simp: without_def)

lemma without_fst: "fst ` set (without k es) = fst ` set es - {k}"
  by (auto simp: without_def)

lemma distinct_without: "distinct (map fst es) \<Longrightarrow> distinct (map fst (without k es))"
  by (simp add: without_def distinct_map_filter)

lemma list_all_without: "list_all P es \<Longrightarrow> list_all P (without k es)"
  by (simp add: without_def list_all_iff)

lemma total_without:
  "distinct (map fst es) \<Longrightarrow> map_of es k = Some (v, w) \<Longrightarrow>
   total_weight es = total_weight (without k es) + w"
proof (induction es)
  case Nil
  then show ?case by simp
next
  case (Cons e es)
  show ?case
  proof (cases "fst e = k")
    case True
    with Cons.prems have "k \<notin> fst ` set es" by auto
    then have "without k es = es" by (auto simp: without_def filter_id_conv)
    with True Cons.prems show ?thesis by (cases e) (auto simp: without_def)
  next
    case False
    with Cons show ?thesis by (auto simp: without_def)
  qed
qed

lemma map_of_replace:
  "map_of (without k es @ [(k, x)]) k' = (if k' = k then Some x else map_of es k')"
  by (simp add: map_add_def map_of_without split: option.splits)

lemma map_of_move:
  "map_of es k = Some x \<Longrightarrow> map_of (without k es @ [(k, x)]) k' = map_of es k'"
  by (simp only: map_of_replace split: if_splits) simp

lemma distinct_move:
  "distinct (map fst es) \<Longrightarrow> distinct (map fst (without k es @ [(k, x)]))"
  by (simp add: distinct_without without_fst)

lemma map_of_entry_ok: "list_all entry_ok es \<Longrightarrow> map_of es k = Some x \<Longrightarrow> entry_ok (k, x)"
  by (auto simp: list_all_iff dest: map_of_SomeD)

text \<open>A get finds what \<open>map_of\<close> finds, and changes only the order of the entries.\<close>

lemma lru_Get_result: "fst (lru_Get l k) = map_option fst (map_of (items l) k)"
  by (simp add: lru_Get_def find_map_of split: option.splits)

lemma lru_Get_capacity: "capacity (snd (lru_Get l k)) = capacity l"
  by (simp add: lru_Get_def split: option.splits)

lemma lru_Get_items:
  "items (snd (lru_Get l k)) =
     (case map_of (items l) k of None \<Rightarrow> items l | Some x \<Rightarrow> without k (items l) @ [(k, x)])"
  by (simp add: lru_Get_def find_map_of split: option.splits)

lemma lru_Get_map_of: "map_of (items (snd (lru_Get l k))) k' = map_of (items l) k'"
proof (cases "map_of (items l) k")
  case None
  then show ?thesis by (simp add: lru_Get_items)
next
  case (Some x)
  then show ?thesis by (simp only: lru_Get_items option.case map_of_move)
qed

lemma lru_ok_Get: "lru_ok l \<Longrightarrow> lru_ok (snd (lru_Get l k))"
proof (cases "map_of (items l) k")
  case None
  assume "lru_ok l"
  with None show ?thesis by (simp add: lru_ok_def lru_Get_items lru_Get_capacity)
next
  case (Some x)
  assume ok: "lru_ok l"
  obtain v w where x: "x = (v, w)" by (cases x)
  from ok Some x have "total_weight (items l) = total_weight (without k (items l)) + w"
    by (simp add: lru_ok_def total_without)
  moreover from ok have "list_all entry_ok (items l)"
    by (simp add: lru_ok_def)
  then have "entry_ok (k, x)" using Some by (rule map_of_entry_ok)
  ultimately show ?thesis using ok Some x
    by (simp add: lru_ok_def lru_Get_items lru_Get_capacity distinct_move
        list_all_without del: distinct_append map_append)
qed

lemma lru_AddSize_capacity: "capacity (lru_AddSize l k v w) = capacity l"
  by (simp add: lru_AddSize_def)

lemma lru_ok_AddSize: "lru_ok l \<Longrightarrow> entry_ok (k, v, w) \<Longrightarrow> lru_ok (lru_AddSize l k v w)"
  by (simp add: lru_ok_def lru_AddSize_def evict_le evict_distinct distinct_move
      evict_list_all list_all_without del: distinct_append map_append)

text \<open>Replacing an entry by one of the same weight evicts nothing.\<close>

lemma lru_AddSize_same_weight:
  assumes "lru_ok l" and "map_of (items l) k = Some (v0, w)"
  shows "items (lru_AddSize l k v w) = without k (items l) @ [(k, v, w)]"
proof -
  from assms have "total_weight (items l) = total_weight (without k (items l)) + w"
    by (simp add: lru_ok_def total_without)
  with assms have "total_weight (without k (items l) @ [(k, v, w)]) \<le> capacity l"
    by (simp add: lru_ok_def)
  then show ?thesis by (simp add: lru_AddSize_def evict_id)
qed

subsection \<open>Evaluating the examples\<close>

lemma ParseInt_5: "ParseInt ''5'' = Some 5"
  by (simp add: ParseInt_def ParseUint_def digit_def)

lemma NewLRUCache_100: "NewLRUCache 100 = Inr fresh_cache"
  by (simp add: NewLRUCache_def NewLargeWithEvict_def fresh_cache_def)

lemma short_res_length: "ParseInt (http_Get (header short_res) ''Content-Length'') = Some 5"
  by (simp add: short_res_def http_Get_def ParseInt_5)

lemma short_res_read: "fst (Read (reader short_res) (nat 5)) = (''hel'', None)"
  by (simp add: short_res_def)

subsection \<open>Store: the reading of the body\<close>

text \<open>
  C1 claims that a \<open>Store\<close> whose resource declares a parseable Content-Length of
  \<open>L\<close> bytes returns a read error when the single read of the body yields fewer than
  \<open>L\<close> bytes without an I/O error. The code does not: line 66 returns \<open>err\<close>, which
  is \<open>nil\<close> after a read without error, so every such \<open>Store\<close> returns \<open>nil\<close> and
  leaves the cache as it was, with nothing stored.
\<close>

theorem Store_short_read_returns_nil:
  assumes "ParseInt (http_Get (header res) ''Content-Length'') = Some L"
    and "fst (Read (reader res) (nat L)) = (bs, None)"
    and "int (length bs) < L"
  shows "Store c res keys = Returns (None, c)"
  using assms by (simp add: Store_def Store_body_def)

theorem Store_short_read_returns_nil_witness:
  "ParseInt (http_Get (header short_res) ''Content-Length'') = Some 5 \<and>
   fst (Read (reader short_res) (nat 5)) = (''hel'', None) \<and>
   int (length ''hel'') < 5 \<and>
   NewLRUCache 100 = Inr fresh_cache \<and>
   Store fresh_cache short_res [''/x''] = Returns (None, fresh_cache)"
proof -
  have c: "int (length ''hel'') < 5" by simp
  from Store_short_read_returns_nil [OF short_res_length short_res_read c]
    short_res_length short_res_read c NewLRUCache_100
  show ?thesis by simp
qed

text \<open>
  C10: \<open>Store\<close> is atomic on failure. Whenever \<open>Store\<close> returns an error that is not
  \<open>nil\<close>, the cache, its eviction store and its stale overlay, is exactly as it was
  before the call.
\<close>

theorem Store_error_unchanged:
  "Store c res keys = Returns (Some err, c') \<Longrightarrow> c' = c"
  by (auto simp: Store_def split: outcome.splits sum.splits)

theorem Store_error_unchanged_witness:
  "Store stale_cache broken_res [''/x''] = Returns (Some (ErrIO ''connection reset''), stale_cache)"
proof -
  have h: "Store stale_cache broken_res [''/x'']
             = Returns (Some (ErrIO ''connection reset''), stale_cache)"
    by (simp add: Store_def Store_body_def broken_res_def http_Get_def ParseInt_def
        ReadAll_def)
  from Store_error_unchanged [OF h] h show ?thesis by simp
qed

subsection \<open>Header\<close>

text \<open>
  C8: \<open>Header\<close> does not depend on the stale overlay. Two caches with the same
  eviction store and any two overlays give the same result, headers and status or
  error, and leave the same eviction store.
\<close>

theorem Header_ignores_overlay:
  "fst (Header \<lparr>cache = l, stale = s1\<rparr> key) = fst (Header \<lparr>cache = l, stale = s2\<rparr> key) \<and>
   cache (snd (Header \<lparr>cache = l, stale = s1\<rparr> key))
     = cache (snd (Header \<lparr>cache = l, stale = s2\<rparr> key))"
  by (simp add: Header_def split: prod.splits option.splits ival.splits)

theorem Header_ignores_overlay_witness:
  "fst (Header stale_cache ''/x'') = Inr \<lparr>Hdr = [(''ETag'', [''a''])], StatusCode = 200\<rparr> \<and>
   fst (Header (stale_cache\<lparr>stale := None\<rparr>) ''/x'')
     = Inr \<lparr>Hdr = [(''ETag'', [''a''])], StatusCode = 200\<rparr>"
proof -
  have h: "fst (Header stale_cache ''/x'') = Inr \<lparr>Hdr = [(''ETag'', [''a''])], StatusCode = 200\<rparr>"
    by (simp add: Header_def stale_cache_def lru_Get_def hello_obj_def)
  from Header_ignores_overlay [of "cache stale_cache" "stale stale_cache" "''/x''" None] h
  show ?thesis by (simp add: stale_cache_def)
qed

subsection \<open>Invalidate\<close>

text \<open>
  C2 claims that \<open>Invalidate\<close> with a list of keys that is not empty, on any cache
  that \<open>NewLRUCache\<close> constructed, records the current time for each key and never
  panics. The code does not: \<open>NewLRUCache\<close> leaves the overlay \<open>nil\<close>, nothing
  allocates it later, and the assignment of line 133 panics on a nil map.
\<close>

theorem Invalidate_nil_overlay_panics:
  "NewLRUCache sz = Inr c \<Longrightarrow> Invalidate clk n c (key # keys) = Panics"
  by (auto simp: NewLRUCache_def split: sum.splits)

theorem Invalidate_nil_overlay_panics_witness:
  "NewLRUCache 100 = Inr fresh_cache \<and> Invalidate (\<lambda>i. 7) 0 fresh_cache [''/x''] = Panics"
  using Invalidate_nil_overlay_panics [OF NewLRUCache_100] NewLRUCache_100 by simp

subsection \<open>Header, updateHeader, Retrieve and Freshen\<close>

lemma Header_state: "snd (Header c k) = c\<lparr>cache := snd (lru_Get (cache c) k)\<rparr>"
  by (simp add: Header_def split: prod.splits option.splits ival.splits)

lemma Header_result:
  "fst (Header c k) =
     (case map_of (items (cache c)) k of
        None \<Rightarrow> Inl ErrNotFoundInCache
      | Some (Foreign, w) \<Rightarrow> Inl ErrUnknownType
      | Some (IsCacheObj v, w) \<Rightarrow> Inr \<lparr>Hdr = headers v, StatusCode = code v\<rparr>)"
proof -
  have "fst (lru_Get (cache c) k) = map_option fst (map_of (items (cache c)) k)"
    by (rule lru_Get_result)
  then show ?thesis
    by (auto simp: Header_def split: prod.splits option.splits ival.splits)
qed

lemma cache_ok_cache_update: "cache_ok (c\<lparr>cache := l\<rparr>) = lru_ok l"
  by (simp add: cache_ok_def)

lemma cache_ok_stale_update: "cache_ok (c\<lparr>stale := s\<rparr>) = cache_ok c"
  by (simp add: cache_ok_def)

lemma stale_lookup_cache_update: "stale_lookup (c\<lparr>cache := l\<rparr>) k = stale_lookup c k"
  by (simp add: stale_lookup_def)


lemma cache_ok_entry_ok: "cache_ok c \<Longrightarrow> map_of (items (cache c)) k = Some x \<Longrightarrow> entry_ok (k, x)"
proof -
  assume "cache_ok c" and m: "map_of (items (cache c)) k = Some x"
  then have "list_all entry_ok (items (cache c))" by (simp add: cache_ok_def lru_ok_def)
  then show ?thesis using m by (rule map_of_entry_ok)
qed

lemma cache_ok_not_Foreign: "cache_ok c \<Longrightarrow> map_of (items (cache c)) k \<noteq> Some (Foreign, w)"
proof
  assume "cache_ok c" and "map_of (items (cache c)) k = Some (Foreign, w)"
  then have "entry_ok (k, Foreign, w)" by (rule cache_ok_entry_ok)
  then show False by (simp add: entry_ok_def)
qed

lemma cache_ok_weight: "cache_ok c \<Longrightarrow> map_of (items (cache c)) k = Some (IsCacheObj v, w) \<Longrightarrow> w = length (body v)"
proof -
  assume "cache_ok c" and "map_of (items (cache c)) k = Some (IsCacheObj v, w)"
  then have "entry_ok (k, IsCacheObj v, w)" by (rule cache_ok_entry_ok)
  then show ?thesis by (simp add: entry_ok_def Size_def)
qed

lemma updateHeader_state:
  assumes "map_of (items (cache c)) k = Some (IsCacheObj v, w)"
  shows "updateHeader c k hs cd =
           (None, c\<lparr>cache := lru_AddSize (snd (lru_Get (cache c) k)) k
                      (IsCacheObj (v\<lparr>headers := hs, code := cd\<rparr>)) (length (body v))\<rparr>)"
proof -
  have "fst (lru_Get (cache c) k) = Some (IsCacheObj v)"
    using assms by (simp add: lru_Get_result)
  then show ?thesis
    by (auto simp: updateHeader_def Size_def split: prod.splits option.splits ival.splits)
qed

lemma updateHeader_ok:
  assumes "cache_ok c" and "map_of (items (cache c)) k = Some (IsCacheObj v, w)"
  shows "\<exists>c'. updateHeader c k hs cd = (None, c') \<and> cache_ok c' \<and> stale c' = stale c \<and>
           capacity (cache c') = capacity (cache c) \<and>
           (\<forall>k'. map_of (items (cache c')) k' =
              (if k' = k then Some (IsCacheObj (v\<lparr>headers := hs, code := cd\<rparr>), length (body v))
               else map_of (items (cache c)) k'))"
proof -
  let ?l = "snd (lru_Get (cache c) k)"
  let ?v = "IsCacheObj (v\<lparr>headers := hs, code := cd\<rparr>)"
  let ?c = "c\<lparr>cache := lru_AddSize ?l k ?v (length (body v))\<rparr>"
  have w: "w = length (body v)" using assms by (rule cache_ok_weight)
  have ok: "lru_ok ?l" using assms(1) by (simp add: cache_ok_def lru_ok_Get)
  have m: "map_of (items ?l) k = Some (IsCacheObj v, length (body v))"
    using assms(2) w by (simp add: lru_Get_map_of)
  have it: "items (lru_AddSize ?l k ?v (length (body v))) = without k (items ?l) @ [(k, ?v, length (body v))]"
    using ok m by (rule lru_AddSize_same_weight)
  have "entry_ok (k, ?v, length (body v))" by (simp add: entry_ok_def Size_def)
  with ok have "cache_ok ?c" by (simp add: cache_ok_def lru_ok_AddSize)
  moreover have "updateHeader c k hs cd = (None, ?c)" using assms(2) by (rule updateHeader_state)
  moreover have "capacity (cache ?c) = capacity (cache c)"
    by (simp add: lru_AddSize_capacity lru_Get_capacity)
  moreover have "\<forall>k'. map_of (items (cache ?c)) k' =
              (if k' = k then Some (?v, length (body v)) else map_of (items (cache c)) k')"
    by (simp add: it map_of_replace lru_Get_map_of del: map_of_append)
  ultimately show ?thesis by simp
qed


lemma headersEqual_iff: "headersEqual h1 h2 \<longleftrightarrow> map_of h1 = map_of h2"
proof
  assume eq: "headersEqual h1 h2"
  show "map_of h1 = map_of h2"
  proof
    fix k
    show "map_of h1 k = map_of h2 k"
    proof (cases "k \<in> fst ` set h1 \<union> fst ` set h2")
      case True
      with eq show ?thesis by (auto simp: headersEqual_def list_all_iff)
    next
      case False
      then have "map_of h1 k = None" and "map_of h2 k = None"
        by (simp_all add: map_of_eq_None_iff)
      then show ?thesis by simp
    qed
  qed
next
  assume "map_of h1 = map_of h2"
  then show "headersEqual h1 h2" by (simp add: headersEqual_def list_all_iff)
qed

lemma headersEqual_refl: "headersEqual h h"
  by (simp add: headersEqual_iff)

lemma Header_Inr:
  assumes "map_of (items (cache c)) k = Some (IsCacheObj v, w)"
  shows "Header c k = (Inr \<lparr>Hdr = headers v, StatusCode = code v\<rparr>, c\<lparr>cache := snd (lru_Get (cache c) k)\<rparr>)"
proof -
  have "fst (Header c k) = Inr \<lparr>Hdr = headers v, StatusCode = code v\<rparr>"
    using assms by (simp add: Header_result)
  then show ?thesis using Header_state [of c k] by (metis prod.collapse)
qed

lemma Header_Inl:
  assumes "map_of (items (cache c)) k = None"
  shows "Header c k = (Inl ErrNotFoundInCache, c\<lparr>cache := snd (lru_Get (cache c) k)\<rparr>)"
proof -
  have "fst (Header c k) = Inl ErrNotFoundInCache"
    using assms by (simp add: Header_result)
  then show ?thesis using Header_state [of c k] by (metis prod.collapse)
qed

text \<open>One matching key of Freshen.\<close>

lemma Freshen_step_match:
  assumes "cache_ok c" and "map_of (items (cache c)) key = Some (IsCacheObj v, w)"
    and "code v = Status res" and "headersEqual (headers v) (header res)"
  shows "\<exists>c1. Freshen clk n c res (key # keys) = Freshen clk n c1 res keys \<and> cache_ok c1 \<and>
           stale c1 = stale c \<and> capacity (cache c1) = capacity (cache c) \<and>
           (\<forall>k'. map_of (items (cache c1)) k' =
              (if k' = key
               then Some (IsCacheObj (v\<lparr>headers := header res, code := code v\<rparr>), length (body v))
               else map_of (items (cache c)) k'))"
proof -
  let ?c0 = "c\<lparr>cache := snd (lru_Get (cache c) key)\<rparr>"
  have h: "Header c key = (Inr \<lparr>Hdr = headers v, StatusCode = code v\<rparr>, ?c0)"
    using assms(2) by (rule Header_Inr)
  have ok0: "cache_ok ?c0" using assms(1) by (simp add: cache_ok_def lru_ok_Get)
  have m0: "map_of (items (cache ?c0)) key = Some (IsCacheObj v, w)"
    using assms(2) by (simp add: lru_Get_map_of)
  from updateHeader_ok [OF ok0 m0, of "header res" "code v"]
  obtain c1 where c1: "updateHeader ?c0 key (header res) (code v) = (None, c1)" "cache_ok c1"
      "stale c1 = stale ?c0" "capacity (cache c1) = capacity (cache ?c0)"
      "\<forall>k'. map_of (items (cache c1)) k' =
              (if k' = key
               then Some (IsCacheObj (v\<lparr>headers := header res, code := code v\<rparr>), length (body v))
               else map_of (items (cache ?c0)) k')"
    by blast
  have "Freshen clk n c res (key # keys) = Freshen clk n c1 res keys"
    using h c1(1) assms(3,4) by simp
  moreover have "\<forall>k'. map_of (items (cache c1)) k' =
              (if k' = key
               then Some (IsCacheObj (v\<lparr>headers := header res, code := code v\<rparr>), length (body v))
               else map_of (items (cache c)) k')"
    using c1(5) by (simp add: lru_Get_map_of)
  ultimately show ?thesis using c1(2,3,4) by (auto simp: lru_Get_capacity)
qed

text \<open>Any key of Freshen leaves the other keys alone.\<close>

lemma Freshen_step_other:
  assumes "cache_ok c" and "Freshen clk n c res (key # keys) = Returns r"
  shows "\<exists>n1 c1. Freshen clk n1 c1 res keys = Returns r \<and> cache_ok c1 \<and>
           capacity (cache c1) = capacity (cache c) \<and>
           (\<forall>k. k \<noteq> key \<longrightarrow> map_of (items (cache c1)) k = map_of (items (cache c)) k \<and>
                  stale_lookup c1 k = stale_lookup c k)"
proof (cases "map_of (items (cache c)) key")
  case None
  let ?c0 = "c\<lparr>cache := snd (lru_Get (cache c) key)\<rparr>"
  have "Header c key = (Inl ErrNotFoundInCache, ?c0)" using None by (rule Header_Inl)
  then have "Freshen clk n ?c0 res keys = Returns r" using assms(2) by simp
  moreover have "cache_ok ?c0" using assms(1) by (simp add: cache_ok_def lru_ok_Get)
  ultimately show ?thesis
    by (intro exI [of _ n] exI [of _ ?c0])
       (simp add: lru_Get_capacity lru_Get_map_of stale_lookup_def)
next
  case (Some x)
  obtain iv w where x: "x = (iv, w)" by (cases x)
  with Some assms(1) obtain v where iv: "iv = IsCacheObj v"
    using cache_ok_not_Foreign [of c key w] by (cases iv) auto
  from Some x iv have m: "map_of (items (cache c)) key = Some (IsCacheObj v, w)" by simp
  show ?thesis
  proof (cases "code v = Status res \<and> headersEqual (headers v) (header res)")
    case True
    from Freshen_step_match [OF assms(1) m, of res clk n keys] True
    obtain c1 where c1: "Freshen clk n c res (key # keys) = Freshen clk n c1 res keys" "cache_ok c1"
      "stale c1 = stale c" "capacity (cache c1) = capacity (cache c)"
      "\<forall>k'. map_of (items (cache c1)) k' =
              (if k' = key
               then Some (IsCacheObj (v\<lparr>headers := header res, code := code v\<rparr>), length (body v))
               else map_of (items (cache c)) k')"
      by blast
    then have "Freshen clk n c1 res keys = Returns r" using assms(2) by simp
    then show ?thesis using c1(2-5)
      by (intro exI [of _ n] exI [of _ c1]) (simp add: stale_lookup_def)
  next
    case False
    let ?c0 = "c\<lparr>cache := snd (lru_Get (cache c) key)\<rparr>"
    have h: "Header c key = (Inr \<lparr>Hdr = headers v, StatusCode = code v\<rparr>, ?c0)"
      using m by (rule Header_Inr)
    show ?thesis
    proof (cases "stale c")
      case None
      with h False assms(2) show ?thesis by (auto split: if_splits)
    next
      case (Some mp)
      let ?c1 = "?c0\<lparr>stale := Some (mp(key \<mapsto> clk n))\<rparr>"
      have "Freshen clk (Suc n) ?c1 res keys = Returns r"
        using h False assms(2) Some by (auto split: if_splits)
      moreover have "cache_ok ?c1" using assms(1) by (simp add: cache_ok_def lru_ok_Get)
      ultimately show ?thesis using Some
        by (intro exI [of _ "Suc n"] exI [of _ ?c1])
           (simp add: lru_Get_capacity lru_Get_map_of stale_lookup_def)
    qed
  qed
qed

lemma Freshen_frame:
  assumes "cache_ok c" and "Freshen clk n c res keys = Returns (e, n', c')"
  shows "cache_ok c' \<and> e = None \<and> capacity (cache c') = capacity (cache c) \<and>
         (\<forall>k. k \<notin> set keys \<longrightarrow> map_of (items (cache c')) k = map_of (items (cache c)) k \<and>
                  stale_lookup c' k = stale_lookup c k)"
  using assms
proof (induction keys arbitrary: c n)
  case Nil
  then show ?case by simp
next
  case (Cons key keys)
  from Freshen_step_other [OF Cons.prems]
  obtain n1 c1 where s: "Freshen clk n1 c1 res keys = Returns (e, n', c')" "cache_ok c1"
      "capacity (cache c1) = capacity (cache c)"
      "\<forall>k. k \<noteq> key \<longrightarrow> map_of (items (cache c1)) k = map_of (items (cache c)) k \<and>
                  stale_lookup c1 k = stale_lookup c k"
    by blast
  from Cons.IH [OF s(2) s(1)] s(3,4) show ?case by simp
qed

lemma Freshen_match:
  assumes "cache_ok c" and "Freshen clk n c res keys = Returns (e, n', c')" and "k \<in> set keys"
    and "map_of (items (cache c)) k = Some (IsCacheObj v, w)"
    and "code v = Status res" and "headersEqual (headers v) (header res)"
  shows "map_of (items (cache c')) k =
           Some (IsCacheObj (v\<lparr>headers := header res, code := code v\<rparr>), length (body v)) \<and>
         stale_lookup c' k = stale_lookup c k"
  using assms
proof (induction keys arbitrary: c n v w)
  case Nil
  then show ?case by simp
next
  case (Cons key keys)
  show ?case
  proof (cases "key = k")
    case True
    let ?v = "v\<lparr>headers := header res, code := code v\<rparr>"
    from Freshen_step_match [OF Cons.prems(1) Cons.prems(4) [folded True] Cons.prems(5,6), of clk n keys]
    obtain c1 where c1: "Freshen clk n c res (key # keys) = Freshen clk n c1 res keys" "cache_ok c1"
      "stale c1 = stale c"
      "\<forall>k'. map_of (items (cache c1)) k' =
              (if k' = key then Some (IsCacheObj ?v, length (body v))
               else map_of (items (cache c)) k')"
      by blast
    from c1(1) Cons.prems(2) have r: "Freshen clk n c1 res keys = Returns (e, n', c')" by simp
    from c1(4) True have m1: "map_of (items (cache c1)) k = Some (IsCacheObj ?v, length (body v))"
      by simp
    have st: "stale_lookup c1 k = stale_lookup c k" using c1(3) by (simp add: stale_lookup_def)
    show ?thesis
    proof (cases "k \<in> set keys")
      case True
      have "code ?v = Status res" using Cons.prems(5) by simp
      moreover have "headersEqual (headers ?v) (header res)" by (simp add: headersEqual_refl)
      ultimately show ?thesis using Cons.IH [OF c1(2) r True m1] st by simp
    next
      case False
      with Freshen_frame [OF c1(2) r] m1 st show ?thesis by simp
    qed
  next
    case False
    with Cons.prems(3) have kin: "k \<in> set keys" by simp
    from Freshen_step_other [OF Cons.prems(1,2)]
    obtain n1 c1 where s: "Freshen clk n1 c1 res keys = Returns (e, n', c')" "cache_ok c1"
      "\<forall>k. k \<noteq> key \<longrightarrow> map_of (items (cache c1)) k = map_of (items (cache c)) k \<and>
                  stale_lookup c1 k = stale_lookup c k"
      by blast
    from s(3) False Cons.prems(4) have m1: "map_of (items (cache c1)) k = Some (IsCacheObj v, w)"
      by simp
    from s(3) False have "stale_lookup c1 k = stale_lookup c k" by simp
    with Cons.IH [OF s(2) s(1) kin m1 Cons.prems(5,6)] show ?thesis by simp
  qed
qed


lemma Retrieve_entry:
  assumes "map_of (items (cache c)) k = Some (IsCacheObj v, w)"
  shows "Retrieve pt c k =
           (Inr (case stale_lookup c k of
                   Some t \<Rightarrow>
                     if \<not> DateAfter pt (NewResourceBytes (code v) (body v) (headers v)) t
                     then MarkStale (NewResourceBytes (code v) (body v) (headers v))
                     else NewResourceBytes (code v) (body v) (headers v)
                 | None \<Rightarrow> NewResourceBytes (code v) (body v) (headers v)),
            c\<lparr>cache := snd (lru_Get (cache c) k)\<rparr>)"
proof -
  have "fst (lru_Get (cache c) k) = Some (IsCacheObj v)"
    using assms by (simp add: lru_Get_result)
  then show ?thesis
    by (auto simp: Retrieve_def Let_def split: prod.splits option.splits ival.splits)
qed


lemma DateAfter_MarkStale: "DateAfter pt (MarkStale r) t = DateAfter pt r t"
  by (simp add: DateAfter_def MarkStale_def)

text \<open>
  C5: for a key that holds an entry, \<open>Retrieve\<close> returns a resource that is marked
  stale if and only if the key is in the stale overlay and the resource's effective
  date is not strictly after the overlay's instant; \<open>Retrieve\<close> leaves the overlay as
  it is in both cases.
\<close>

theorem Retrieve_stale_iff:
  assumes "map_of (items (cache c)) key = Some (IsCacheObj val, w)"
  shows "\<exists>r c'. Retrieve pt c key = (Inr r, c') \<and>
           staleFlag r = (\<exists>t. stale_lookup c key = Some t \<and> \<not> DateAfter pt r t) \<and>
           stale c' = stale c"
proof (cases "stale_lookup c key")
  case None
  with Retrieve_entry [OF assms, of pt] show ?thesis
    by (simp add: NewResourceBytes_def)
next
  case (Some t)
  with Retrieve_entry [OF assms, of pt] show ?thesis
    by (simp add: DateAfter_MarkStale) (simp add: NewResourceBytes_def MarkStale_def)
qed

lemma dated_entry: "map_of (items (cache dated_cache)) ''/x'' = Some (IsCacheObj dated_obj, 5)"
  by (simp add: dated_cache_def)

lemma dated_Retrieve:
  "Retrieve epoch_pt dated_cache ''/x'' =
     (Inr (MarkStale (NewResourceBytes 200 ''hello'' (headers dated_obj))), dated_cache)"
  by (simp add: Retrieve_def lru_Get_def without_def stale_lookup_def DateAfter_def
      http_Get_def NewResourceBytes_def MarkStale_def epoch_pt_def dated_cache_def
      dated_obj_def)

theorem Retrieve_stale_iff_witness:
  "map_of (items (cache dated_cache)) ''/x'' = Some (IsCacheObj dated_obj, 5) \<and>
   Retrieve epoch_pt dated_cache ''/x'' =
     (Inr (MarkStale (NewResourceBytes 200 ''hello'' (headers dated_obj))), dated_cache) \<and>
   staleFlag (MarkStale (NewResourceBytes 200 ''hello'' (headers dated_obj))) \<and>
   stale_lookup dated_cache ''/x'' = Some 7"
  using Retrieve_stale_iff [OF dated_entry, of epoch_pt] dated_entry dated_Retrieve
  by (simp add: MarkStale_def stale_lookup_def dated_cache_def)


lemma Header_Foreign:
  assumes "map_of (items (cache c)) k = Some (Foreign, w)"
  shows "Header c k = (Inl ErrUnknownType, c\<lparr>cache := snd (lru_Get (cache c) k)\<rparr>)"
proof -
  have "fst (Header c k) = Inl ErrUnknownType"
    using assms by (simp add: Header_result)
  then show ?thesis using Header_state [of c k] by (metis prod.collapse)
qed

text \<open>What one key of Freshen does, in any cache.\<close>

lemma Freshen_Cons:
  "Freshen clk n c res (key # keys) =
     (let c0 = c\<lparr>cache := snd (lru_Get (cache c) key)\<rparr>
      in case map_of (items (cache c)) key of
           None \<Rightarrow> Freshen clk n c0 res keys
         | Some (Foreign, w) \<Rightarrow> Freshen clk n c0 res keys
         | Some (IsCacheObj v, w) \<Rightarrow>
             if code v = Status res \<and> headersEqual (headers v) (header res)
             then Freshen clk n
                    (c0\<lparr>cache := lru_AddSize (snd (lru_Get (cache c0) key)) key
                           (IsCacheObj (v\<lparr>headers := header res, code := code v\<rparr>))
                           (length (body v))\<rparr>) res keys
             else (case stale c of
                     None \<Rightarrow> Panics
                   | Some m \<Rightarrow> Freshen clk (Suc n) (c0\<lparr>stale := Some (m(key \<mapsto> clk n))\<rparr>) res keys))"
proof (cases "map_of (items (cache c)) key")
  case None
  then show ?thesis by (simp add: Header_Inl)
next
  case (Some x)
  obtain iv w where x: "x = (iv, w)" by (cases x)
  show ?thesis
  proof (cases iv)
    case Foreign
    with Some x show ?thesis by (simp add: Header_Foreign)
  next
    case (IsCacheObj v)
    let ?c0 = "c\<lparr>cache := snd (lru_Get (cache c) key)\<rparr>"
    from Some x IsCacheObj have m: "map_of (items (cache c)) key = Some (IsCacheObj v, w)"
      by simp
    then have m0: "map_of (items (cache ?c0)) key = Some (IsCacheObj v, w)"
      by (simp add: lru_Get_map_of)
    show ?thesis
      by (simp add: Header_Inr [OF m] updateHeader_state [OF m0] m Let_def split: option.splits)
  qed
qed

lemma Freshen_no_error: "Freshen clk n c res keys = Returns (e, n', c') \<Longrightarrow> e = None"
proof (induction keys arbitrary: c n)
  case Nil
  then show ?case by simp
next
  case (Cons key keys)
  from Cons.prems show ?case
    by (simp only: Freshen_Cons Let_def)
       (auto split: option.splits ival.splits if_splits dest: Cons.IH)
qed

lemma Freshen_returns:
  "stale c = Some m \<Longrightarrow> \<exists>n' c'. Freshen clk n c res keys = Returns (None, n', c')"
proof (induction keys arbitrary: c n m)
  case Nil
  then show ?case by simp
next
  case (Cons key keys)
  have a: "\<And>c1 n1 m1. stale c1 = Some m1 \<Longrightarrow> \<exists>n' c'. Freshen clk n1 c1 res keys = Returns (None, n', c')"
    by (rule Cons.IH)
  show ?case
    by (simp only: Freshen_Cons Let_def)
       (auto simp: Cons.prems split: option.splits ival.splits intro!: a)
qed

lemmas eval_defs = Header_def updateHeader_def Retrieve_def lru_Get_def lru_AddSize_def
  without_def stale_lookup_def stale_delete_def DateAfter_def http_Get_def NewResourceBytes_def
  MarkStale_def Status_def Size_def headersEqual_def Store_def Store_body_def ReadAll_def
  ParseInt_def ParseUint_def digit_def

lemma dated_cache_ok: "cache_ok dated_cache"
  by (simp add: cache_ok_def lru_ok_def entry_ok_def dated_cache_def dated_obj_def Size_def)

lemma reordered_match:
  "code dated_obj = Status reordered_res \<and> headersEqual (headers dated_obj) (header reordered_res)"
  by (simp add: dated_obj_def reordered_res_def Status_def headersEqual_def)

text \<open>
  C7: in a well-formed cache, for a key whose entry has the candidate's status and
  headers, \<open>Freshen\<close> replaces only the headers and the status of that entry: the
  body is the same, and the entry is stored with the length of that body as its
  weight. \<open>Freshen\<close> of that key alone returns \<open>nil\<close> and leaves every other entry as
  it was; and whenever a \<open>Freshen\<close> of several keys returns, the entry of that key is
  as said, and the entries of the keys that are not in the call are as they were.
\<close>

theorem Freshen_match_keeps_body:
  assumes "cache_ok c"
    and "map_of (items (cache c)) k = Some (IsCacheObj v, w)"
    and "code v = Status res" and "headersEqual (headers v) (header res)"
  shows "(\<exists>c1. Freshen clk n c res [k] = Returns (None, n, c1) \<and>
            map_of (items (cache c1)) k =
              Some (IsCacheObj \<lparr>body = body v, headers = header res, code = code v\<rparr>,
                    length (body v)) \<and>
            (\<forall>k'. k' \<noteq> k \<longrightarrow> map_of (items (cache c1)) k' = map_of (items (cache c)) k')) \<and>
         (\<forall>keys e n' c'.
            k \<in> set keys \<and> Freshen clk n c res keys = Returns (e, n', c') \<longrightarrow>
            map_of (items (cache c')) k =
              Some (IsCacheObj \<lparr>body = body v, headers = header res, code = code v\<rparr>,
                    length (body v)) \<and>
            (\<forall>k'. k' \<notin> set keys \<longrightarrow>
               map_of (items (cache c')) k' = map_of (items (cache c)) k'))"
proof (intro conjI allI impI)
  have eq: "v\<lparr>headers := header res, code := code v\<rparr>
              = \<lparr>body = body v, headers = header res, code = code v\<rparr>"
    by simp
  from Freshen_step_match [OF assms, of clk n "[]"]
  obtain c1 where c1: "Freshen clk n c res [k] = Freshen clk n c1 res []"
      "\<forall>k'. map_of (items (cache c1)) k' =
              (if k' = k
               then Some (IsCacheObj (v\<lparr>headers := header res, code := code v\<rparr>), length (body v))
               else map_of (items (cache c)) k')"
    by blast
  from c1(1) have "Freshen clk n c res [k] = Returns (None, n, c1)" by simp
  moreover from c1(2) eq have "map_of (items (cache c1)) k =
      Some (IsCacheObj \<lparr>body = body v, headers = header res, code = code v\<rparr>, length (body v))"
    by simp
  moreover from c1(2) have "\<forall>k'. k' \<noteq> k \<longrightarrow> map_of (items (cache c1)) k' = map_of (items (cache c)) k'"
    by simp
  ultimately show "\<exists>c1. Freshen clk n c res [k] = Returns (None, n, c1) \<and>
            map_of (items (cache c1)) k =
              Some (IsCacheObj \<lparr>body = body v, headers = header res, code = code v\<rparr>,
                    length (body v)) \<and>
            (\<forall>k'. k' \<noteq> k \<longrightarrow> map_of (items (cache c1)) k' = map_of (items (cache c)) k')"
    by blast
  fix keys e n' c'
  assume a: "k \<in> set keys \<and> Freshen clk n c res keys = Returns (e, n', c')"
  then have kin: "k \<in> set keys" and f: "Freshen clk n c res keys = Returns (e, n', c')"
    by simp_all
  from Freshen_match [OF assms(1) f kin assms(2,3,4)] eq
  show "map_of (items (cache c')) k =
      Some (IsCacheObj \<lparr>body = body v, headers = header res, code = code v\<rparr>, length (body v))"
    by simp
  fix k'
  assume "k' \<notin> set keys"
  with Freshen_frame [OF assms(1) f]
  show "map_of (items (cache c')) k' = map_of (items (cache c)) k'" by simp
qed

lemma reordered_Freshen:
  "Freshen (\<lambda>i. 7) 1 dated_cache reordered_res [''/x''] = Returns (None, 1, reordered_cache)"
  by (simp add: eval_defs dated_cache_def dated_obj_def reordered_res_def reordered_cache_def
      reordered_obj_def)

theorem Freshen_match_keeps_body_witness:
  "cache_ok dated_cache \<and>
   map_of (items (cache dated_cache)) ''/x'' = Some (IsCacheObj dated_obj, 5) \<and>
   code dated_obj = Status reordered_res \<and>
   headersEqual (headers dated_obj) (header reordered_res) \<and>
   Freshen (\<lambda>i. 7) 1 dated_cache reordered_res [''/x''] = Returns (None, 1, reordered_cache) \<and>
   map_of (items (cache reordered_cache)) ''/x'' =
     Some (IsCacheObj \<lparr>body = body dated_obj, headers = header reordered_res,
             code = code dated_obj\<rparr>, length (body dated_obj))"
proof -
  note r = Freshen_match_keeps_body [OF dated_cache_ok dated_entry conjunct1 [OF reordered_match]
      conjunct2 [OF reordered_match], of "\<lambda>i. 7" 1]
  from conjunct1 [OF r] reordered_Freshen
  have "map_of (items (cache reordered_cache)) ''/x'' =
     Some (IsCacheObj \<lparr>body = body dated_obj, headers = header reordered_res,
             code = code dated_obj\<rparr>, length (body dated_obj))"
    by auto
  with dated_cache_ok dated_entry reordered_match reordered_Freshen
  show ?thesis by (intro conjI) blast+
qed

text \<open>
  C9 claims that \<open>Freshen\<close> fails only through \<open>updateHeader\<close>, and that a mismatch
  of status or headers, which invalidates the key, is not a failure. \<open>Freshen\<close>
  indeed never returns an error (\<open>Freshen_no_error\<close>), but on a cache whose overlay is
  \<open>nil\<close>, as \<open>NewLRUCache\<close> leaves it, a mismatch on a key that holds an entry
  panics in \<open>Invalidate\<close>.
\<close>

theorem Freshen_mismatch_nil_overlay_panics:
  assumes "stale c = None" and "map_of (items (cache c)) key = Some (IsCacheObj v, w)"
    and "\<not> (code v = Status res \<and> headersEqual (headers v) (header res))"
  shows "Freshen clk n c res (key # keys) = Panics"
  using assms by (simp only: Freshen_Cons Let_def) (auto split: if_splits)

lemma hello_Store: "Store fresh_cache hello_res [''/x''] = Returns (None, hello_cache)"
  by (simp add: eval_defs fresh_cache_def hello_res_def hello_cache_def hello_obj_def)

theorem Freshen_mismatch_nil_overlay_panics_witness:
  "NewLRUCache 100 = Inr fresh_cache \<and>
   Store fresh_cache hello_res [''/x''] = Returns (None, hello_cache) \<and>
   \<not> headersEqual (headers hello_obj) (header changed_res) \<and>
   Freshen (\<lambda>i. 7) 0 hello_cache changed_res [''/x''] = Panics"
proof -
  have s: "stale hello_cache = None" by (simp add: hello_cache_def)
  have m: "map_of (items (cache hello_cache)) ''/x'' = Some (IsCacheObj hello_obj, 5)"
    by (simp add: hello_cache_def)
  have h: "\<not> headersEqual (headers hello_obj) (header changed_res)"
    by (simp add: headersEqual_def hello_obj_def changed_res_def)
  then have h': "\<not> (code hello_obj = Status changed_res \<and> headersEqual (headers hello_obj) (header changed_res))"
    by simp
  from Freshen_mismatch_nil_overlay_panics [OF s m h'] NewLRUCache_100 hello_Store h
  show ?thesis by simp
qed

subsection \<open>Store and the keys it writes\<close>

lemma stale_delete_cache: "cache (stale_delete c k) = cache c"
  by (simp add: stale_delete_def split: option.splits)

lemma stale_lookup_delete:
  "stale_lookup (stale_delete c k) k' = (if k' = k then None else stale_lookup c k')"
  by (simp add: stale_delete_def stale_lookup_def split: option.splits)

lemma Store_keys_append:
  "Store_keys c val (ks1 @ ks2) = Store_keys (Store_keys c val ks1) val ks2"
  by (induction ks1 arbitrary: c) (simp_all add: Let_def)

lemma Store_keys_capacity: "capacity (cache (Store_keys c val ks)) = capacity (cache c)"
  by (induction ks arbitrary: c) (simp_all add: Let_def lru_AddSize_capacity stale_delete_cache)

lemma Store_keys_overlay:
  "stale_lookup (Store_keys c val ks) k = (if k \<in> set ks then None else stale_lookup c k)"
  by (induction ks arbitrary: c)
     (auto simp: Let_def stale_lookup_cache_update stale_lookup_delete)

lemma total_uniform: "list_all (\<lambda>e. snd (snd e) = w) es \<Longrightarrow> total_weight es = length es * w"
  by (induction es) auto

text \<open>
  The entries that a Store has written so far are the most recent ones; they stay as
  long as they fit the capacity together.
\<close>

lemma Store_keys_recent:
  assumes "items (cache c) = pre @ suf"
    and "distinct (map fst suf)"
    and "list_all (\<lambda>e. snd e = (IsCacheObj val, Size val)) suf"
    and "fst ` set pre \<inter> fst ` set suf = {}"
    and "card (fst ` set suf \<union> set ks) * Size val \<le> capacity (cache c)"
  shows "\<exists>pre' suf'. items (cache (Store_keys c val ks)) = pre' @ suf' \<and>
           distinct (map fst suf') \<and>
           list_all (\<lambda>e. snd e = (IsCacheObj val, Size val)) suf' \<and>
           fst ` set pre' \<inter> fst ` set suf' = {} \<and>
           fst ` set suf' = fst ` set suf \<union> set ks"
  using assms
proof (induction ks arbitrary: c pre suf)
  case Nil
  then show ?case by auto
next
  case (Cons k ks)
  let ?new = "(k, IsCacheObj val, Size val)"
  let ?suf = "without k suf @ [?new]"
  let ?c = "(stale_delete c k)\<lparr>cache := lru_AddSize (cache (stale_delete c k)) k (IsCacheObj val) (Size val)\<rparr>"
  have d: "distinct (map fst ?suf)" using Cons.prems(2) by (rule distinct_move)
  have u: "list_all (\<lambda>e. snd e = (IsCacheObj val, Size val)) ?suf"
    using Cons.prems(3) by (simp add: list_all_without)
  then have "list_all (\<lambda>e. snd (snd e) = Size val) ?suf"
    by (simp add: list_all_iff)
  then have t: "total_weight ?suf = length ?suf * Size val" by (rule total_uniform)
  have ks: "fst ` set ?suf = insert k (fst ` set suf)"
    by (auto simp: without_fst)
  have "card (set (map fst ?suf)) = length (map fst ?suf)"
    using d by (rule distinct_card)
  then have l: "length ?suf = card (fst ` set ?suf)"
    by (simp only: set_map length_map)
  have "card (fst ` set ?suf) \<le> card (fst ` set suf \<union> set (k # ks))"
    unfolding ks by (rule card_mono) auto
  with l have "length ?suf * Size val \<le> card (fst ` set suf \<union> set (k # ks)) * Size val"
    by (simp only: mult_le_mono1)
  with Cons.prems(5) t have "total_weight ?suf \<le> capacity (cache c)"
    by linarith
  then obtain p where p: "evict (capacity (cache c)) (without k pre @ ?suf) = p @ ?suf"
      "set p \<subseteq> set (without k pre)"
    using evict_keep by blast
  have it: "items (cache ?c) = p @ ?suf"
    using p(1) Cons.prems(1)
    by (simp add: lru_AddSize_def stale_delete_cache without_def)
  have dj: "fst ` set p \<inter> fst ` set ?suf = {}"
  proof -
    from p(2) have "fst ` set p \<subseteq> fst ` set pre - {k}"
      using without_fst [of k pre] by blast
    with Cons.prems(4) show ?thesis unfolding ks by blast
  qed
  have cd: "card (fst ` set ?suf \<union> set ks) * Size val \<le> capacity (cache ?c)"
  proof -
    have "fst ` set ?suf \<union> set ks = fst ` set suf \<union> set (k # ks)"
      unfolding ks by auto
    with Cons.prems(5) show ?thesis
      by (simp add: lru_AddSize_capacity stale_delete_cache)
  qed
  from Cons.IH [OF it d u dj cd]
  obtain pre' suf' where r: "items (cache (Store_keys ?c val ks)) = pre' @ suf'"
      "distinct (map fst suf')" "list_all (\<lambda>e. snd e = (IsCacheObj val, Size val)) suf'"
      "fst ` set pre' \<inter> fst ` set suf' = {}" "fst ` set suf' = fst ` set ?suf \<union> set ks"
    by blast
  have f: "fst ` set suf' = fst ` set suf \<union> set (k # ks)"
    using r(5) unfolding ks by auto
  have e: "Store_keys c val (k # ks) = Store_keys ?c val ks"
    by (simp add: Let_def)
  have "items (cache (Store_keys ?c val ks)) = pre' @ suf' \<and>
           distinct (map fst suf') \<and>
           list_all (\<lambda>e. snd e = (IsCacheObj val, Size val)) suf' \<and>
           fst ` set pre' \<inter> fst ` set suf' = {} \<and>
           fst ` set suf' = fst ` set suf \<union> set (k # ks)"
    using r(1-4) f by (intro conjI)
  then show ?case unfolding e by (intro exI)
qed

lemma Store_keys_entry:
  assumes "length (remdups (k # ks)) * Size val \<le> capacity (cache c)"
  shows "map_of (items (cache (Store_keys c val (k # ks)))) k = Some (IsCacheObj val, Size val)"
proof -
  have a1: "items (cache c) = items (cache c) @ []" by simp
  have a2: "distinct (map fst ([]::entry list))" by simp
  have a3: "list_all (\<lambda>e. snd e = (IsCacheObj val, Size val)) []" by simp
  have a4: "fst ` set (items (cache c)) \<inter> fst ` set ([]::entry list) = {}" by simp
  have "card (set (k # ks)) = length (remdups (k # ks))" by (rule card_set)
  then have a5: "card (fst ` set ([]::entry list) \<union> set (k # ks)) * Size val \<le> capacity (cache c)"
    using assms by (simp del: remdups.simps)
  from Store_keys_recent [OF a1 a2 a3 a4 a5]
  obtain pre' suf' where r: "items (cache (Store_keys c val (k # ks))) = pre' @ suf'"
      "distinct (map fst suf')" "list_all (\<lambda>e. snd e = (IsCacheObj val, Size val)) suf'"
      "fst ` set pre' \<inter> fst ` set suf' = {}"
      "fst ` set suf' = fst ` set ([]::entry list) \<union> set (k # ks)"
    by blast
  from r(5) have kin: "k \<in> fst ` set suf'" by simp
  with r(4) have "k \<notin> fst ` set pre'" by blast
  then have n: "map_of pre' k = None" by (simp add: map_of_eq_None_iff)
  from kin obtain x where x: "(k, x) \<in> set suf'" by auto
  with r(3) have "x = (IsCacheObj val, Size val)" by (auto simp: list_all_iff)
  with x r(2) have "map_of suf' k = Some (IsCacheObj val, Size val)" by simp
  with n show ?thesis unfolding r(1) by (simp add: map_add_def)
qed


lemma Store_read:
  assumes "Store_body res = Returns (Inr b)"
  shows "Store c res keys =
           Returns (None, Store_keys c \<lparr>body = b, headers = header res, code = statusCode res\<rparr> keys)"
  using assms by (simp add: Store_def)

lemma ReadAll_NewResourceBytes: "ReadAll (reader (NewResourceBytes cd b h)) = (b, None)"
  by (simp add: ReadAll_def NewResourceBytes_def)

text \<open>
  C4 claims the round trip for every key of a \<open>Store\<close> whose entry is within the
  capacity. A \<open>Store\<close> under several keys inserts one copy per key, and a later copy
  may evict an earlier one; what holds is C4 as amended: when \<open>Store\<close> has read the
  whole body, and the copies stored under \<open>k\<close> and under the distinct keys that follow
  \<open>k\<close> in the call fit the capacity together, then \<open>Store\<close> returns \<open>nil\<close> and
  \<open>Retrieve k\<close> returns a resource with the same status code, the same headers, the
  same bytes as its body, and the stale flag false.
\<close>

theorem Store_Retrieve_roundtrip:
  assumes "Store_body res = Returns (Inr (bodyBytes res))"
    and "keys = ks1 @ k # ks2"
    and "length (remdups (k # ks2)) * length (bodyBytes res) \<le> capacity (cache c)"
  shows "\<exists>c' r c''. Store c res keys = Returns (None, c') \<and>
           Retrieve pt c' k = (Inr r, c'') \<and>
           statusCode r = statusCode res \<and> header r = header res \<and>
           ReadAll (reader r) = (bodyBytes res, None) \<and> \<not> staleFlag r"
proof -
  let ?val = "\<lparr>body = bodyBytes res, headers = header res, code = statusCode res\<rparr>"
  let ?c1 = "Store_keys c ?val ks1"
  let ?c' = "Store_keys c ?val keys"
  let ?r = "NewResourceBytes (code ?val) (body ?val) (headers ?val)"
  have s: "Store c res keys = Returns (None, ?c')" using assms(1) by (rule Store_read)
  have e: "?c' = Store_keys ?c1 ?val (k # ks2)"
    unfolding assms(2) by (rule Store_keys_append)
  have "length (remdups (k # ks2)) * Size ?val \<le> capacity (cache ?c1)"
    using assms(3) by (simp add: Size_def Store_keys_capacity del: remdups.simps)
  then have "map_of (items (cache (Store_keys ?c1 ?val (k # ks2)))) k = Some (IsCacheObj ?val, Size ?val)"
    by (rule Store_keys_entry)
  then have m: "map_of (items (cache ?c')) k = Some (IsCacheObj ?val, Size ?val)"
    by (simp only: e)
  have "k \<in> set keys" unfolding assms(2) by simp
  then have o: "stale_lookup ?c' k = None" by (simp add: Store_keys_overlay)
  have "Retrieve pt ?c' k = (Inr ?r, ?c'\<lparr>cache := snd (lru_Get (cache ?c') k)\<rparr>)"
    unfolding Retrieve_entry [OF m] o by simp
  moreover have "statusCode ?r = statusCode res \<and> header ?r = header res \<and> \<not> staleFlag ?r"
    by (simp add: NewResourceBytes_def)
  moreover have "ReadAll (reader ?r) = (bodyBytes res, None)"
    by (simp add: ReadAll_NewResourceBytes)
  ultimately show ?thesis using s by blast
qed

lemma hello_body: "Store_body hello_res = Returns (Inr (bodyBytes hello_res))"
  by (simp add: eval_defs bodyBytes_def hello_res_def)

lemma hello_bytes: "bodyBytes hello_res = ''hello''"
  by (simp add: bodyBytes_def hello_res_def)

lemma hello_Retrieve:
  "Retrieve epoch_pt hello_cache ''/x'' =
     (Inr \<lparr>header = [(''ETag'', [''a''])], statusCode = 200,
            reader = Stream [''hello''] None, staleFlag = False\<rparr>, hello_cache)"
  by (simp add: eval_defs hello_cache_def hello_obj_def)

theorem Store_Retrieve_roundtrip_witness:
  "Store_body hello_res = Returns (Inr (bodyBytes hello_res)) \<and>
   length (remdups [''/x'']) * length (bodyBytes hello_res) \<le> capacity (cache fresh_cache) \<and>
   Store fresh_cache hello_res [''/x''] = Returns (None, hello_cache) \<and>
   Retrieve epoch_pt hello_cache ''/x'' =
     (Inr \<lparr>header = [(''ETag'', [''a''])], statusCode = 200,
            reader = Stream [''hello''] None, staleFlag = False\<rparr>, hello_cache) \<and>
   header hello_res = [(''ETag'', [''a''])] \<and> statusCode hello_res = 200 \<and>
   ReadAll (Stream [''hello''] None) = (bodyBytes hello_res, None)"
proof -
  have k: "[''/x''] = [] @ ''/x'' # []" by simp
  have l: "length (remdups (''/x'' # [])) * length (bodyBytes hello_res) \<le> capacity (cache fresh_cache)"
    by (simp add: hello_bytes fresh_cache_def)
  have a: "ReadAll (Stream [''hello''] None) = (bodyBytes hello_res, None)"
    by (simp add: ReadAll_def hello_bytes)
  have b: "header hello_res = [(''ETag'', [''a''])] \<and> statusCode hello_res = 200"
    by (simp add: hello_res_def)
  from Store_Retrieve_roundtrip [OF hello_body k l, of epoch_pt]
    hello_body l hello_Store hello_Retrieve a b
  show ?thesis by simp
qed

lemma NewLRUCache_5: "NewLRUCache 5 = Inr small_cache"
  by (simp add: NewLRUCache_def NewLargeWithEvict_def small_cache_def)

text \<open>
  With a capacity of five bytes, the five bytes of "hello" stored under \<open>/a\<close> and
  \<open>/b\<close> leave only \<open>/b\<close> in the cache: \<open>Retrieve\<close> does not find \<open>/a\<close>.
\<close>

theorem Store_Retrieve_roundtrip_counterexample:
  "NewLRUCache 5 = Inr small_cache \<and>
   Store_body hello_res = Returns (Inr (bodyBytes hello_res)) \<and>
   length (bodyBytes hello_res) \<le> capacity (cache small_cache) \<and>
   Store small_cache hello_res [''/a'', ''/b''] = Returns (None, small_stored) \<and>
   fst (Retrieve epoch_pt small_stored ''/a'') = Inl ErrNotFoundInCache"
proof -
  have "length (bodyBytes hello_res) \<le> capacity (cache small_cache)"
    by (simp add: hello_bytes small_cache_def)
  moreover have "Store small_cache hello_res [''/a'', ''/b''] = Returns (None, small_stored)"
    by (simp add: eval_defs small_cache_def small_stored_def hello_res_def hello_obj_def)
  moreover have "fst (Retrieve epoch_pt small_stored ''/a'') = Inl ErrNotFoundInCache"
    by (simp add: Retrieve_def lru_Get_def small_stored_def)
  ultimately show ?thesis using NewLRUCache_5 hello_body by simp
qed

subsection \<open>What changes the stale overlay\<close>

text \<open>A Store that has read the body takes its keys, and no others, out of the overlay.\<close>

lemma Store_removes_keys:
  assumes "Store_body res = Returns (Inr b)"
  shows "\<exists>c'. Store c res keys = Returns (None, c') \<and>
           (\<forall>k. stale_lookup c' k = (if k \<in> set keys then None else stale_lookup c k))"
  using Store_read [OF assms] by (simp add: Store_keys_overlay)

text \<open>No other operation takes a key out of the overlay.\<close>

lemma Retrieve_overlay: "stale (snd (Retrieve pt c k)) = stale c"
  by (simp add: Retrieve_def Let_def split: prod.splits option.splits ival.splits)

lemma Header_overlay: "stale (snd (Header c k)) = stale c"
  by (simp add: Header_state)

lemma updateHeader_overlay: "stale (snd (updateHeader c k hs cd)) = stale c"
  by (simp add: updateHeader_def Let_def split: prod.splits option.splits ival.splits)

lemma Invalidate_overlay:
  "Invalidate clk n c keys = Returns (n', c') \<Longrightarrow> stale_lookup c k \<noteq> None \<Longrightarrow>
   stale_lookup c' k \<noteq> None"
proof (induction keys arbitrary: c n)
  case Nil
  then show ?case by simp
next
  case (Cons key keys)
  from Cons.prems(2) obtain m where m: "stale c = Some m"
    by (auto simp: stale_lookup_def split: option.splits)
  let ?c = "c\<lparr>stale := Some (m(key \<mapsto> clk n))\<rparr>"
  from Cons.prems(1) m have "Invalidate clk (Suc n) ?c keys = Returns (n', c')" by simp
  moreover from Cons.prems(2) m have "stale_lookup ?c k \<noteq> None"
    by (simp add: stale_lookup_def)
  ultimately show ?case by (rule Cons.IH)
qed

lemma Freshen_overlay:
  "Freshen clk n c res keys = Returns (e, n', c') \<Longrightarrow> stale_lookup c k \<noteq> None \<Longrightarrow>
   stale_lookup c' k \<noteq> None"
proof (induction keys arbitrary: c n)
  case Nil
  then show ?case by simp
next
  case (Cons key keys)
  let ?c0 = "c\<lparr>cache := snd (lru_Get (cache c) key)\<rparr>"
  from Cons.prems(2) obtain m where m: "stale c = Some m"
    by (auto simp: stale_lookup_def split: option.splits)
  from Cons.prems(2) have l0: "\<And>l. stale_lookup (c\<lparr>cache := l\<rparr>) k \<noteq> None"
    by (simp add: stale_lookup_def)
  show ?case
  proof (cases "map_of (items (cache c)) key")
    case None
    with Cons.prems(1) have "Freshen clk n ?c0 res keys = Returns (e, n', c')"
      by (simp only: Freshen_Cons Let_def option.case)
    then show ?thesis using l0 by (rule Cons.IH)
  next
    case (Some x)
    obtain iv w where x: "x = (iv, w)" by (cases x)
    show ?thesis
    proof (cases iv)
      case Foreign
      with Some x Cons.prems(1) have "Freshen clk n ?c0 res keys = Returns (e, n', c')"
        by (simp only: Freshen_Cons Let_def option.case prod.case ival.case)
      then show ?thesis using l0 by (rule Cons.IH)
    next
      case (IsCacheObj v)
      show ?thesis
      proof (cases "code v = Status res \<and> headersEqual (headers v) (header res)")
        case True
        let ?c1 = "?c0\<lparr>cache := lru_AddSize (snd (lru_Get (cache ?c0) key)) key
                           (IsCacheObj (v\<lparr>headers := header res, code := code v\<rparr>))
                           (length (body v))\<rparr>"
        from Some x IsCacheObj True Cons.prems(1)
        have "Freshen clk n ?c1 res keys = Returns (e, n', c')"
          by (simp add: Freshen_Cons Let_def del: Freshen.simps)
        moreover have "stale_lookup ?c1 k \<noteq> None"
          using Cons.prems(2) by (simp add: stale_lookup_def)
        ultimately show ?thesis by (rule Cons.IH)
      next
        case False
        let ?c1 = "?c0\<lparr>stale := Some (m(key \<mapsto> clk n))\<rparr>"
        from Some x IsCacheObj False Cons.prems(1) m
        have "Freshen clk (Suc n) ?c1 res keys = Returns (e, n', c')"
          by (auto simp: Freshen_Cons Let_def simp del: Freshen.simps split: if_splits)
        moreover have "stale_lookup ?c1 k \<noteq> None"
          using Cons.prems(2) m by (simp add: stale_lookup_def)
        ultimately show ?thesis by (rule Cons.IH)
      qed
    qed
  qed
qed

text \<open>With an allocated overlay, Invalidate returns, having recorded a reading of the
  clock for each of its keys and changed nothing else.\<close>

lemma Invalidate_allocated:
  "stale c = Some m \<Longrightarrow>
   \<exists>c'. Invalidate clk n c keys = Returns (n + length keys, c') \<and> cache c' = cache c \<and>
     (\<forall>k. if k \<in> set keys
          then \<exists>i. n \<le> i \<and> i < n + length keys \<and> stale_lookup c' k = Some (clk i)
          else stale_lookup c' k = stale_lookup c k)"
proof (induction keys arbitrary: c n m)
  case Nil
  then show ?case by simp
next
  case (Cons key keys)
  let ?c = "c\<lparr>stale := Some (m(key \<mapsto> clk n))\<rparr>"
  have "stale ?c = Some (m(key \<mapsto> clk n))" by simp
  from Cons.IH [OF this, of "Suc n"]
  obtain c' where c': "Invalidate clk (Suc n) ?c keys = Returns (Suc n + length keys, c')"
      "cache c' = cache ?c"
      "\<forall>k. if k \<in> set keys
          then \<exists>i. Suc n \<le> i \<and> i < Suc n + length keys \<and> stale_lookup c' k = Some (clk i)
          else stale_lookup c' k = stale_lookup ?c k"
    by blast
  have "\<forall>k. if k \<in> set (key # keys)
          then \<exists>i. n \<le> i \<and> i < n + length (key # keys) \<and> stale_lookup c' k = Some (clk i)
          else stale_lookup c' k = stale_lookup c k"
  proof
    fix k
    show "if k \<in> set (key # keys)
          then \<exists>i. n \<le> i \<and> i < n + length (key # keys) \<and> stale_lookup c' k = Some (clk i)
          else stale_lookup c' k = stale_lookup c k"
    proof (cases "k \<in> set keys")
      case True
      with c'(3) obtain i where "Suc n \<le> i" "i < Suc n + length keys" "stale_lookup c' k = Some (clk i)"
        by metis
      then have "n \<le> i \<and> i < n + length (key # keys) \<and> stale_lookup c' k = Some (clk i)"
        by simp
      with True show ?thesis by auto
    next
      case False
      with c'(3) have e: "stale_lookup c' k = stale_lookup ?c k" by metis
      show ?thesis
      proof (cases "k = key")
        case True
        with e have "stale_lookup c' k = Some (clk n)" by (simp add: stale_lookup_def)
        then have "n \<le> n \<and> n < n + length (key # keys) \<and> stale_lookup c' k = Some (clk n)"
          by simp
        with True show ?thesis by auto
      next
        case False
        with e \<open>k \<notin> set keys\<close> Cons.prems show ?thesis by (simp add: stale_lookup_def)
      qed
    qed
  qed
  with c'(1,2) Cons.prems show ?case by simp
qed

subsection \<open>Well-formed caches stay well-formed\<close>







subsection \<open>The caches that a program reaches\<close>

lemma Store_keys_nil: "stale c = None \<Longrightarrow> stale (Store_keys c val ks) = None"
  by (induction ks arbitrary: c) (simp_all add: Let_def stale_delete_def)

lemma Store_nil: "stale c = None \<Longrightarrow> Store c res keys = Returns (e, c') \<Longrightarrow> stale c' = None"
  by (auto simp: Store_def Store_keys_nil split: outcome.splits sum.splits)

lemma Invalidate_nil:
  "stale c = None \<Longrightarrow> Invalidate clk n c keys = Returns (n', c') \<Longrightarrow> stale c' = None"
  by (cases keys) auto

lemma Freshen_nil:
  "stale c = None \<Longrightarrow> Freshen clk n c res keys = Returns (e, n', c') \<Longrightarrow> stale c' = None"
proof (induction keys arbitrary: c n)
  case Nil
  then show ?case by simp
next
  case (Cons key keys)
  have a: "\<And>c1 n1. stale c1 = None \<Longrightarrow> Freshen clk n1 c1 res keys = Returns (e, n', c') \<Longrightarrow>
             stale c' = None"
    by (rule Cons.IH)
  from Cons.prems(2) show ?case
    by (simp only: Freshen_Cons Let_def)
       (auto simp: Cons.prems(1) split: option.splits ival.splits if_splits
          elim!: a [rotated])
qed


text \<open>No run allocates the overlay, and every cache it reaches is well-formed.\<close>

lemma reachable_nil: "reachable c \<Longrightarrow> stale c = None"
proof (induction rule: reachable.induct)
  case (new sz c)
  then show ?case by (auto simp: NewLRUCache_def split: sum.splits)
next
  case (header c key)
  then show ?case by (simp add: Header_overlay)
next
  case (store c res keys e c')
  then show ?case by (simp add: Store_nil)
next
  case (retrieve c pt key)
  then show ?case by (simp add: Retrieve_overlay)
next
  case (update c key hs cd)
  then show ?case by (simp add: updateHeader_overlay)
next
  case (invalidate c clk n keys n' c')
  then show ?case by (simp add: Invalidate_nil)
next
  case (freshen c clk n res keys e n' c')
  then show ?case by (simp add: Freshen_nil)
qed


lemma reachable_lookup: "reachable c \<Longrightarrow> stale_lookup c k = None"
  by (simp add: stale_lookup_def reachable_nil)

lemma reachable_fresh: "reachable fresh_cache"
  using NewLRUCache_100 by (rule reachable.new)









text \<open>
  C6: a successful \<open>Store\<close> takes each of its keys out of the stale overlay, and
  nothing else takes a key out. In every reachable cache, after a \<open>Store\<close> that
  returned \<open>nil\<close>, none of its keys is in the overlay. In any cache, a \<open>Store\<close> that
  has read the body returns \<open>nil\<close> and takes exactly its keys out of the overlay.
  \<open>Retrieve\<close>, \<open>Header\<close> and \<open>updateHeader\<close> leave the overlay as it is, and a key that
  is in the overlay is still in it after any \<open>Invalidate\<close> and any \<open>Freshen\<close> that
  returns.
\<close>

theorem Store_clears_overlay:
  "(reachable c \<and> Store c res keys = Returns (None, c') \<longrightarrow>
      (\<forall>k. k \<in> set keys \<longrightarrow> stale_lookup c' k = None)) \<and>
   (Store_body res = Returns (Inr b) \<longrightarrow>
      (\<exists>c1. Store c res keys = Returns (None, c1) \<and>
         (\<forall>k. stale_lookup c1 k = (if k \<in> set keys then None else stale_lookup c k)))) \<and>
   stale (snd (Retrieve pt c key)) = stale c \<and>
   stale (snd (Header c key)) = stale c \<and>
   stale (snd (updateHeader c key hs cd)) = stale c \<and>
   (\<forall>k ks n' c2. stale_lookup c k \<noteq> None \<and> Invalidate clk n c ks = Returns (n', c2) \<longrightarrow>
      stale_lookup c2 k \<noteq> None) \<and>
   (\<forall>k ks cand e n' c2.
      stale_lookup c k \<noteq> None \<and> Freshen clk n c cand ks = Returns (e, n', c2) \<longrightarrow>
      stale_lookup c2 k \<noteq> None)"
proof (intro conjI allI impI)
  fix k
  assume a: "reachable c \<and> Store c res keys = Returns (None, c')"
  then have "reachable c'" by (blast intro: reachable.store)
  then show "stale_lookup c' k = None" by (rule reachable_lookup)
next
  assume "Store_body res = Returns (Inr b)"
  then show "\<exists>c1. Store c res keys = Returns (None, c1) \<and>
         (\<forall>k. stale_lookup c1 k = (if k \<in> set keys then None else stale_lookup c k))"
    by (rule Store_removes_keys)
next
  show "stale (snd (Retrieve pt c key)) = stale c" by (rule Retrieve_overlay)
next
  show "stale (snd (Header c key)) = stale c" by (rule Header_overlay)
next
  show "stale (snd (updateHeader c key hs cd)) = stale c" by (rule updateHeader_overlay)
next
  fix k ks n' c2
  assume "stale_lookup c k \<noteq> None \<and> Invalidate clk n c ks = Returns (n', c2)"
  then show "stale_lookup c2 k \<noteq> None" using Invalidate_overlay by blast
next
  fix k ks cand e n' c2
  assume "stale_lookup c k \<noteq> None \<and> Freshen clk n c cand ks = Returns (e, n', c2)"
  then show "stale_lookup c2 k \<noteq> None" using Freshen_overlay by blast
qed

lemma stale_Store: "Store stale_cache hello_res [''/x''] = Returns (None, restored_cache)"
  by (simp add: eval_defs stale_cache_def hello_res_def restored_cache_def hello_obj_def)

theorem Store_clears_overlay_witness:
  "reachable fresh_cache \<and>
   Store fresh_cache hello_res [''/x''] = Returns (None, hello_cache) \<and>
   stale_lookup hello_cache ''/x'' = None \<and>
   Store_body hello_res = Returns (Inr ''hello'') \<and>
   stale_lookup stale_cache ''/x'' = Some 7 \<and>
   Store stale_cache hello_res [''/x''] = Returns (None, restored_cache) \<and>
   stale_lookup restored_cache ''/x'' = None \<and>
   stale (snd (Retrieve epoch_pt stale_cache ''/x'')) = stale stale_cache"
proof -
  note t = Store_clears_overlay [of fresh_cache hello_res "[''/x'']" hello_cache "''hello''"
      epoch_pt "''/x''"]
  have k: "''/x'' \<in> set [''/x'']" by simp
  from conjunct1 [OF t] reachable_fresh hello_Store k
  have a: "stale_lookup hello_cache ''/x'' = None" by blast
  have b: "Store_body hello_res = Returns (Inr ''hello'')"
    using hello_body by (simp add: hello_bytes)
  have s: "stale_lookup stale_cache ''/x'' = Some 7"
    by (simp add: stale_lookup_def stale_cache_def)
  have r: "stale_lookup restored_cache ''/x'' = None"
    by (simp add: stale_lookup_def restored_cache_def)
  have q: "stale (snd (Retrieve epoch_pt stale_cache ''/x'')) = stale stale_cache"
    by (rule Retrieve_overlay)
  from reachable_fresh hello_Store a b s stale_Store r q
  show ?thesis by (intro conjI)
qed


end
